theory Spec2Isabelle
  imports Complex_Main "HOL-Library.Sublist"
begin

section \<open>Data model of \<open>relna/learning/taggers.py\<close>\<close>

text \<open>
  Modelled from the spec: the constants \<open>PRO_CLASS_ID\<close> and \<open>MUT_CLASS_ID\<close> are imported from
  \<open>nala.utils\<close>, which is not part of the sources. The spec calls the entity category an enum
  with a default category (\<open>PRO_CLASS_ID\<close>, given to every new entity) and a special category
  (\<open>MUT_CLASS_ID\<close>, given when a term of the target list is found).
\<close>

datatype class_id = PRO_CLASS_ID | MUT_CLASS_ID

text \<open>
  Modelled from the spec: the dictionary keys \<open>ENTREZ_GENE_ID\<close> and \<open>UNIPROT_ID\<close> are
  constants of \<open>nala.utils\<close> as well. The fallback dictionary of the source is keyed by the
  string literal \<open>'EntrezGeneID'\<close>, which is kept apart as \<open>Key\<close>.
\<close>

datatype norm_key = ENTREZ_GENE_ID | UNIPROT_ID | Key string

text \<open>A value of the normalisation dictionary: \<open>gene[3]\<close> or the list \<open>genes_mapping[gene[3]]\<close>.\<close>

datatype norm_value = Id string | Ids "string list"

text \<open>
  \<open>Entity(class_id=..., offset=..., text=..., confidence=0.5)\<close> with the two attributes
  \<open>normalisation_dict\<close> and \<open>normalized_text\<close> that \<open>tag\<close> assigns afterwards.
\<close>

record entity =
  class_id :: class_id
  offset :: int
  entity_text :: string
  confidence :: real
  normalisation_dict :: "(norm_key \<times> norm_value) list"
  normalized_text :: string

text \<open>
  A gene mention is a tuple of which \<open>tag\<close> reads the indices 0 (start offset in the
  document), 2 (matched text) and 3 (Entrez gene id); index 1 is never read.
\<close>

record gene =
  gene_0 :: int
  gene_2 :: string
  gene_3 :: string

record part =
  part_text :: string
  annotations :: "entity list"
  predicted_annotations :: "entity list"

text \<open>\<open>doc.parts\<close> and \<open>dataset.documents\<close> are ordered dictionaries, read with \<open>items()\<close>.\<close>

record document =
  parts :: "(string \<times> part) list"

record dataset =
  documents :: "(string \<times> document) list"

text \<open>A dictionary from an id to a list of ids, as the two lookup services return it.\<close>

type_synonym id_dict = "(string \<times> string list) list"

text \<open>
  Modelled from the spec: \<open>Part.get_size\<close> belongs to the nala library. The spec calls it the
  part's length in characters.
\<close>

definition get_size :: "part \<Rightarrow> int" where
  "get_size p = int (length (part_text p))"

text \<open>
  Modelled from the spec: \<open>Document.get_text\<close> belongs to the nala library. The spec calls it
  the concatenated text of the document, with one separator character between consecutive parts.
\<close>

fun join_text :: "string list \<Rightarrow> string" where
  "join_text [] = []"
| "join_text [t] = t"
| "join_text (t # ts) = t @ '' '' @ join_text ts"

definition get_text :: "document \<Rightarrow> string" where
  "get_text doc = join_text (map (\<lambda>(partid, p). part_text p) (parts doc))"

text \<open>Python's \<open>s in t\<close> on strings: \<open>s\<close> occurs in \<open>t\<close> as a contiguous substring.\<close>

fun str_in :: "string \<Rightarrow> string \<Rightarrow> bool" where
  "str_in s [] = (s = [])"
| "str_in s (c # cs) = (prefix s (c # cs) \<or> str_in s cs)"

section \<open>External services\<close>

text \<open>An exception raised by a call to one of the external services.\<close>

datatype error = AdapterFailure

text \<open>
  The methods of \<open>GNormPlus\<close>, \<open>Swissprot\<close> and \<open>GOTerms\<close> that \<open>tag\<close> calls. Their code is
  not part of the sources, so they are parameters: each either raises or returns.
\<close>

record services =
  get_genes_for_text :: "document \<Rightarrow> string \<Rightarrow> error + gene list"
  get_genes_for_pmid :: "string \<Rightarrow> error + gene list"
  uniquify_genes :: "gene list \<Rightarrow> string set"
  get_uniprotid_for_entrez_geneid :: "string set \<Rightarrow> error + id_dict"
  get_goterms_for_uniprot_id :: "string set \<Rightarrow> error + id_dict"

datatype resource = GNormPlus | Swissprot | GOTerms

text \<open>
  What \<open>tag\<close> does to the outside, in order: entering and leaving a \<open>with\<close> block of a
  service, and the calls of the lookup methods with their arguments.
\<close>

datatype event =
    Enter resource
  | Exit resource
  | Call_get_genes_for_text document string
  | Call_get_genes_for_pmid string
  | Call_get_uniprotid_for_entrez_geneid "string set"
  | Call_get_goterms_for_uniprot_id "string set"

text \<open>A computation yields a result and the events it emitted.\<close>

type_synonym 'a traced = "'a \<times> event list"

definition call :: "event \<Rightarrow> error + 'a \<Rightarrow> (error + 'a) traced" where
  "call ev r = (r, [ev])"

definition done_with :: "'a \<Rightarrow> (error + 'a) traced" where
  "done_with x = (Inr x, [])"

text \<open>Sequencing: an exception of the first computation skips the second.\<close>

definition and_then ::
  "(error + 'a) traced \<Rightarrow> ('a \<Rightarrow> (error + 'b) traced) \<Rightarrow> (error + 'b) traced" where
  "and_then m f =
     (case m of
        (Inl e, tr) \<Rightarrow> (Inl e, tr)
      | (Inr x, tr) \<Rightarrow> (case f x of (r, tr') \<Rightarrow> (r, tr @ tr')))"

text \<open>
  \<open>with R() as r: body\<close>: the context manager is entered, the body runs, and the manager is
  left whether the body returned or raised.
\<close>

definition with_resource :: "resource \<Rightarrow> 'a traced \<Rightarrow> 'a traced" where
  "with_resource r body = (case body of (res, tr) \<Rightarrow> (res, Enter r # tr @ [Exit r]))"

section \<open>\<open>TranscriptionFactorTagger\<close>\<close>

text \<open>
  \<open>uniquify_proteins\<close>: the set of all proteins in a collection of protein lists.
\<close>

definition uniquify_proteins :: "string list list \<Rightarrow> string set" where
  "uniquify_proteins proteins_object = set (concat proteins_object)"

text \<open>\<open>genes_mapping.values()\<close>\<close>

definition dict_values :: "id_dict \<Rightarrow> string list list" where
  "dict_values d = map snd d"

text \<open>
  The first \<open>try\<close> block of \<open>tag\<close>. The inner loop sets \<open>ann.class_id\<close> for each term of
  the protein that is in \<open>self.transfac_go_terms\<close>.
\<close>

fun go_terms_loop :: "string list \<Rightarrow> string list \<Rightarrow> class_id \<Rightarrow> class_id" where
  "go_terms_loop transfac_go_terms [] c = c"
| "go_terms_loop transfac_go_terms (go_term # go_terms) c =
     go_terms_loop transfac_go_terms go_terms
       (if go_term \<in> set transfac_go_terms then MUT_CLASS_ID else c)"

text \<open>
  The outer loop over \<open>uniprotids\<close>. \<open>goterms_mapping[uniprotid]\<close> raises \<open>KeyError\<close> for a
  missing key; the exception leaves the loop and is swallowed by \<open>except KeyError: pass\<close>, so
  the class set so far is the result.
\<close>

fun uniprotids_loop :: "string list \<Rightarrow> id_dict \<Rightarrow> string list \<Rightarrow> class_id \<Rightarrow> class_id" where
  "uniprotids_loop transfac_go_terms goterms_mapping [] c = c"
| "uniprotids_loop transfac_go_terms goterms_mapping (uniprotid # uniprotids) c =
     (case map_of goterms_mapping uniprotid of
        None \<Rightarrow> c
      | Some go_terms \<Rightarrow>
          uniprotids_loop transfac_go_terms goterms_mapping uniprotids
            (go_terms_loop transfac_go_terms go_terms c))"

text \<open>
  The whole \<open>try\<close> block, started with the class \<open>PRO_CLASS_ID\<close> of the new entity:
  \<open>genes_mapping[gene[3]]\<close> raises \<open>KeyError\<close> too.
\<close>

definition classify :: "string list \<Rightarrow> id_dict \<Rightarrow> id_dict \<Rightarrow> gene \<Rightarrow> class_id" where
  "classify transfac_go_terms genes_mapping goterms_mapping g =
     (case map_of genes_mapping (gene_3 g) of
        None \<Rightarrow> PRO_CLASS_ID
      | Some uniprotids \<Rightarrow>
          uniprotids_loop transfac_go_terms goterms_mapping uniprotids PRO_CLASS_ID)"

text \<open>The second \<open>try\<close> block: the normalisation dictionary.\<close>

definition norm_dict :: "id_dict \<Rightarrow> gene \<Rightarrow> (norm_key \<times> norm_value) list" where
  "norm_dict genes_mapping g =
     (case map_of genes_mapping (gene_3 g) of
        Some uniprotids \<Rightarrow> [(ENTREZ_GENE_ID, Id (gene_3 g)), (UNIPROT_ID, Ids uniprotids)]
      | None \<Rightarrow> [(Key ''EntrezGeneID'', Id (gene_3 g))])"

text \<open>The entity built for a gene that passed the test, at the part-local offset \<open>start\<close>.\<close>

definition make_ann :: "string list \<Rightarrow> id_dict \<Rightarrow> id_dict \<Rightarrow> gene \<Rightarrow> int \<Rightarrow> entity" where
  "make_ann transfac_go_terms genes_mapping goterms_mapping g start =
     \<lparr> class_id = classify transfac_go_terms genes_mapping goterms_mapping g,
       offset = start,
       entity_text = gene_2 g,
       confidence = 0.5,
       normalisation_dict = norm_dict genes_mapping g,
       normalized_text = '''' \<rparr>"

text \<open>\<open>part.annotations.append(ann)\<close> or \<open>part.predicted_annotations.append(ann)\<close>.\<close>

definition store :: "bool \<Rightarrow> entity \<Rightarrow> part \<Rightarrow> part" where
  "store annotated ann p =
     (if annotated then p\<lparr>annotations := annotations p @ [ann]\<rparr>
      else p\<lparr>predicted_annotations := predicted_annotations p @ [ann]\<rparr>)"

text \<open>The loop \<open>for gene in genes\<close> for one part, with its window \<open>[last_index, part_index)\<close>.\<close>

fun genes_loop ::
  "string list \<Rightarrow> id_dict \<Rightarrow> id_dict \<Rightarrow> bool \<Rightarrow> int \<Rightarrow> int \<Rightarrow> gene list \<Rightarrow> part \<Rightarrow> part" where
  "genes_loop tf gm gom annotated last_index part_index [] p = p"
| "genes_loop tf gm gom annotated last_index part_index (g # genes) p =
     genes_loop tf gm gom annotated last_index part_index genes
       (if str_in (gene_2 g) (part_text p) \<and> last_index \<le> gene_0 g \<and> gene_0 g < part_index
        then store annotated (make_ann tf gm gom g (gene_0 g - last_index)) p
        else p)"

text \<open>
  The loop \<open>for partid, part in doc.parts.items()\<close>. The argument \<open>part_index\<close> is the value of
  the variable before the iteration; \<open>last_index\<close> is overwritten with it before it is read,
  so its initial value \<open>-1\<close> is never used.
\<close>

fun parts_loop ::
  "string list \<Rightarrow> id_dict \<Rightarrow> id_dict \<Rightarrow> bool \<Rightarrow> gene list \<Rightarrow> int \<Rightarrow>
   (string \<times> part) list \<Rightarrow> (string \<times> part) list" where
  "parts_loop tf gm gom annotated genes part_index [] = []"
| "parts_loop tf gm gom annotated genes part_index ((partid, p) # rest) =
     (let last_index = part_index;
          part_index = part_index + (get_size p + 1)
      in (partid, genes_loop tf gm gom annotated last_index part_index genes p)
         # parts_loop tf gm gom annotated genes part_index rest)"

text \<open>The choice between the two ways of fetching the genes of a document.\<close>

definition fetch_genes :: "services \<Rightarrow> string \<Rightarrow> document \<Rightarrow> (error + gene list) traced" where
  "fetch_genes svc docid doc =
     (if str_in ''Conclusion'' (get_text doc)
      then call (Call_get_genes_for_text doc docid) (get_genes_for_text svc doc docid)
      else call (Call_get_genes_for_pmid docid) (get_genes_for_pmid svc docid))"

text \<open>\<open>genes_mapping\<close>: empty, or filled from Swissprot when \<open>uniprot\<close> is set.\<close>

definition fetch_genes_mapping ::
  "services \<Rightarrow> bool \<Rightarrow> gene list \<Rightarrow> (error + id_dict) traced" where
  "fetch_genes_mapping svc uniprot genes =
     (if uniprot
      then with_resource Swissprot
             (let list_of_ids = uniquify_genes svc genes
              in call (Call_get_uniprotid_for_entrez_geneid list_of_ids)
                      (get_uniprotid_for_entrez_geneid svc list_of_ids))
      else done_with [])"

text \<open>\<open>goterms_mapping\<close>: always asked from the GO service.\<close>

definition fetch_goterms_mapping :: "services \<Rightarrow> id_dict \<Rightarrow> (error + id_dict) traced" where
  "fetch_goterms_mapping svc genes_mapping =
     with_resource GOTerms
       (let list_of_ids = uniquify_proteins (dict_values genes_mapping)
        in call (Call_get_goterms_for_uniprot_id list_of_ids)
                (get_goterms_for_uniprot_id svc list_of_ids))"

text \<open>The body of the loop over the documents.\<close>

definition tag_doc ::
  "services \<Rightarrow> string list \<Rightarrow> bool \<Rightarrow> bool \<Rightarrow> string \<Rightarrow> document \<Rightarrow> (error + document) traced" where
  "tag_doc svc tf annotated uniprot docid doc =
     and_then (fetch_genes svc docid doc) (\<lambda>genes.
     and_then (fetch_genes_mapping svc uniprot genes) (\<lambda>genes_mapping.
     and_then (fetch_goterms_mapping svc genes_mapping) (\<lambda>goterms_mapping.
     done_with (doc\<lparr>parts :=
       parts_loop tf genes_mapping goterms_mapping annotated genes 0 (parts doc)\<rparr>))))"

text \<open>
  The loop \<open>for docid, doc in dataset.documents.items()\<close>. The documents are changed in place,
  so an exception leaves the documents before it tagged and the others as they were.
\<close>

fun docs_loop ::
  "services \<Rightarrow> string list \<Rightarrow> bool \<Rightarrow> bool \<Rightarrow> (string \<times> document) list \<Rightarrow>
   (error option \<times> (string \<times> document) list) traced" where
  "docs_loop svc tf annotated uniprot [] = ((None, []), [])"
| "docs_loop svc tf annotated uniprot ((docid, doc) # rest) =
     (case tag_doc svc tf annotated uniprot docid doc of
        (Inl e, tr) \<Rightarrow> ((Some e, (docid, doc) # rest), tr)
      | (Inr doc', tr) \<Rightarrow>
          (case docs_loop svc tf annotated uniprot rest of
             ((r, rest'), tr') \<Rightarrow> ((r, (docid, doc') # rest'), tr @ tr')))"

text \<open>
  \<open>TranscriptionFactorTagger.tag\<close>, with \<open>self.transfac_go_terms\<close> as \<open>tf\<close>. The result is the
  exception that escaped, if any, the dataset as the call left it, and the events in order.
\<close>

definition tag ::
  "services \<Rightarrow> string list \<Rightarrow> dataset \<Rightarrow> bool \<Rightarrow> bool \<Rightarrow> (error option \<times> dataset) traced" where
  "tag svc tf ds annotated uniprot =
     with_resource GNormPlus
       (case docs_loop svc tf annotated uniprot (documents ds) of
          ((r, docs'), tr) \<Rightarrow> ((r, ds\<lparr>documents := docs'\<rparr>), tr))"

section \<open>Vocabulary of the properties\<close>

text \<open>Appending a list of entities to the collection that the mode flag selects.\<close>

definition store_all :: "bool \<Rightarrow> entity list \<Rightarrow> part \<Rightarrow> part" where
  "store_all annotated anns p =
     (if annotated then p\<lparr>annotations := annotations p @ anns\<rparr>
      else p\<lparr>predicted_annotations := predicted_annotations p @ anns\<rparr>)"

text \<open>The test a gene has to pass to be stored in a part with the window \<open>[lo, hi)\<close>.\<close>

definition passes :: "int \<Rightarrow> int \<Rightarrow> part \<Rightarrow> gene \<Rightarrow> bool" where
  "passes lo hi p g \<longleftrightarrow> str_in (gene_2 g) (part_text p) \<and> lo \<le> gene_0 g \<and> gene_0 g < hi"

text \<open>
  The spec's \<open>cumulative_start(i) = sum(L[0..i-1]) + i\<close> for the list \<open>L\<close> of part lengths.
\<close>

definition cumulative_start :: "int list \<Rightarrow> nat \<Rightarrow> int" where
  "cumulative_start L i = sum_list (take i L) + int i"

definition part_lengths :: "(string \<times> part) list \<Rightarrow> int list" where
  "part_lengths ps = map (\<lambda>(partid, p). get_size p) ps"

text \<open>The entities of \<open>p'\<close> behind those that \<open>p\<close> had already, gold ones first.\<close>

definition added :: "part \<Rightarrow> part \<Rightarrow> entity list" where
  "added p p' =
     drop (length (annotations p)) (annotations p')
     @ drop (length (predicted_annotations p)) (predicted_annotations p')"

text \<open>
  A relation between the parts of a dataset before and after a run: the documents and their
  parts keep their keys and order, and each part is related to what it became.
\<close>

definition parts_rel ::
  "(part \<Rightarrow> part \<Rightarrow> bool) \<Rightarrow> (string \<times> part) list \<Rightarrow> (string \<times> part) list \<Rightarrow> bool" where
  "parts_rel R ps ps' = list_all2 (\<lambda>(k, p) (k', p'). k' = k \<and> R p p') ps ps'"

definition docs_rel ::
  "(part \<Rightarrow> part \<Rightarrow> bool) \<Rightarrow> (string \<times> document) list \<Rightarrow> (string \<times> document) list \<Rightarrow> bool" where
  "docs_rel R ds ds' =
     list_all2 (\<lambda>(k, d) (k', d'). k' = k \<and> parts_rel R (parts d) (parts d')) ds ds'"

section \<open>A worked example\<close>

text \<open>
  The scenario of the spec: the parts \<open>AAAA\<close> and \<open>Conclusion BBBB\<close>, one mention at the
  document offset 11 with the gene id \<open>G1\<close>, which maps to the protein \<open>P1\<close>, which has the
  term \<open>GO:TARGET\<close> of the target list.
\<close>

definition g0 :: gene where
  "g0 = \<lparr> gene_0 = 11, gene_2 = ''BBBB'', gene_3 = ''G1'' \<rparr>"

definition svc0 :: services where
  "svc0 = \<lparr> get_genes_for_text = (\<lambda>doc docid. Inr [g0]),
            get_genes_for_pmid = (\<lambda>docid. Inr [g0]),
            uniquify_genes = (\<lambda>genes. set (map gene_3 genes)),
            get_uniprotid_for_entrez_geneid = (\<lambda>ids. Inr [(''G1'', [''P1''])]),
            get_goterms_for_uniprot_id = (\<lambda>ids. Inr [(''P1'', [''GO:TARGET''])]) \<rparr>"

definition tf0 :: "string list" where
  "tf0 = [''GO:TARGET'']"

definition part0 :: part where
  "part0 = \<lparr> part_text = ''AAAA'', annotations = [], predicted_annotations = [] \<rparr>"

definition part1 :: part where
  "part1 = \<lparr> part_text = ''Conclusion BBBB'', annotations = [], predicted_annotations = [] \<rparr>"

definition doc0 :: document where
  "doc0 = \<lparr> parts = [(''p0'', part0), (''p1'', part1)] \<rparr>"

definition ds0 :: dataset where
  "ds0 = \<lparr> documents = [(''d0'', doc0)] \<rparr>"

definition ann0 :: entity where
  "ann0 = \<lparr> class_id = MUT_CLASS_ID, offset = 6, entity_text = ''BBBB'', confidence = 0.5,
            normalisation_dict = [(ENTREZ_GENE_ID, Id ''G1''), (UNIPROT_ID, Ids [''P1''])],
            normalized_text = '''' \<rparr>"

definition doc0_tagged :: document where
  "doc0_tagged = \<lparr> parts = [(''p0'', part0), (''p1'', part1\<lparr>predicted_annotations := [ann0]\<rparr>)] \<rparr>"

definition ds0_tagged :: dataset where
  "ds0_tagged = \<lparr> documents = [(''d0'', doc0_tagged)] \<rparr>"

definition doc_events0 :: "document \<Rightarrow> string \<Rightarrow> event list" where
  "doc_events0 doc docid =
     [Call_get_genes_for_text doc docid,
      Enter Swissprot, Call_get_uniprotid_for_entrez_geneid {''G1''}, Exit Swissprot,
      Enter GOTerms, Call_get_goterms_for_uniprot_id {''P1''}, Exit GOTerms]"

text \<open>
  A one-part document without the marker, and mentions that the recogniser may return for it:
  one on the separator position behind the part, one whose text is not in the part.
\<close>

definition g_sep :: gene where
  "g_sep = \<lparr> gene_0 = 4, gene_2 = ''A'', gene_3 = ''G1'' \<rparr>"

definition g_other :: gene where
  "g_other = \<lparr> gene_0 = 0, gene_2 = ''B'', gene_3 = ''G1'' \<rparr>"

definition svc_of :: "gene list \<Rightarrow> services" where
  "svc_of genes = \<lparr> get_genes_for_text = (\<lambda>doc docid. Inr genes),
            get_genes_for_pmid = (\<lambda>docid. Inr genes),
            uniquify_genes = (\<lambda>genes. set (map gene_3 genes)),
            get_uniprotid_for_entrez_geneid = (\<lambda>ids. Inr [(''G1'', [''P1''])]),
            get_goterms_for_uniprot_id = (\<lambda>ids. Inr [(''P1'', [''GO:TARGET''])]) \<rparr>"

definition doc_a :: document where
  "doc_a = \<lparr> parts = [(''p0'', part0)] \<rparr>"

definition ds_a :: dataset where
  "ds_a = \<lparr> documents = [(''d0'', doc_a)] \<rparr>"

definition ann_sep :: entity where
  "ann_sep = \<lparr> class_id = PRO_CLASS_ID, offset = 4, entity_text = ''A'', confidence = 0.5,
            normalisation_dict = [(Key ''EntrezGeneID'', Id ''G1'')],
            normalized_text = '''' \<rparr>"

definition ds_sep_tagged :: dataset where
  "ds_sep_tagged =
     \<lparr>documents = [(''d0'', \<lparr>parts = [(''p0'', part0\<lparr>predicted_annotations := [ann_sep]\<rparr>)]\<rparr>)]\<rparr>"

definition events_a :: "event list" where
  "events_a = [Enter GNormPlus, Call_get_genes_for_pmid ''d0'',
      Enter GOTerms, Call_get_goterms_for_uniprot_id {}, Exit GOTerms, Exit GNormPlus]"

text \<open>
  The worked example with two proteins for the gene, of which the GO service knows the second
  only.
\<close>

definition svc_missing :: services where
  "svc_missing = \<lparr> get_genes_for_text = (\<lambda>doc docid. Inr [g0]),
            get_genes_for_pmid = (\<lambda>docid. Inr [g0]),
            uniquify_genes = (\<lambda>genes. set (map gene_3 genes)),
            get_uniprotid_for_entrez_geneid = (\<lambda>ids. Inr [(''G1'', [''P1'', ''P2''])]),
            get_goterms_for_uniprot_id = (\<lambda>ids. Inr [(''P2'', [''GO:TARGET''])]) \<rparr>"

definition ann_missing :: entity where
  "ann_missing = \<lparr> class_id = PRO_CLASS_ID, offset = 6, entity_text = ''BBBB'', confidence = 0.5,
            normalisation_dict = [(ENTREZ_GENE_ID, Id ''G1''), (UNIPROT_ID, Ids [''P1'', ''P2''])],
            normalized_text = '''' \<rparr>"

definition ds_missing_tagged :: dataset where
  "ds_missing_tagged = \<lparr> documents = [(''d0'',
      \<lparr> parts = [(''p0'', part0), (''p1'', part1\<lparr>predicted_annotations := [ann_missing]\<rparr>)] \<rparr>)] \<rparr>"

text \<open>A dataset of two documents, and a GO service that raises.\<close>

definition ds_two :: dataset where
  "ds_two = \<lparr> documents = [(''d0'', doc_a), (''d1'', doc_a)] \<rparr>"

definition svc_fail :: services where
  "svc_fail = \<lparr> get_genes_for_text = (\<lambda>doc docid. Inr [g0]),
            get_genes_for_pmid = (\<lambda>docid. Inr [g0]),
            uniquify_genes = (\<lambda>genes. set (map gene_3 genes)),
            get_uniprotid_for_entrez_geneid = (\<lambda>ids. Inr [(''G1'', [''P1''])]),
            get_goterms_for_uniprot_id = (\<lambda>ids. Inl AdapterFailure) \<rparr>"

definition doc_events_a :: "string \<Rightarrow> event list" where
  "doc_events_a docid =
     [Call_get_genes_for_pmid docid,
      Enter Swissprot, Call_get_uniprotid_for_entrez_geneid {''G1''}, Exit Swissprot,
      Enter GOTerms, Call_get_goterms_for_uniprot_id {''P1''}, Exit GOTerms]"

section \<open>Running twice\<close>

text \<open>The predicted entities of \<open>p1\<close> behind those that \<open>p0\<close> had already.\<close>

definition produced :: "part \<Rightarrow> part \<Rightarrow> entity list" where
  "produced p0 p1 = drop (length (predicted_annotations p0)) (predicted_annotations p1)"

text \<open>
  What a second run is expected to leave, from the part \<open>p0\<close> before the first run and the
  part \<open>p1\<close> after it: the entities that the first run produced, appended once more.
\<close>

definition twice_part :: "part \<Rightarrow> part \<Rightarrow> part" where
  "twice_part p0 p1 =
     p1\<lparr>predicted_annotations := predicted_annotations p0 @ produced p0 p1 @ produced p0 p1\<rparr>"

definition twice_parts :: "(string \<times> part) list \<Rightarrow> (string \<times> part) list \<Rightarrow> (string \<times> part) list" where
  "twice_parts ps ps1 = map2 (\<lambda>(k0, p0) (k1, p1). (k1, twice_part p0 p1)) ps ps1"

definition twice_docs ::
  "(string \<times> document) list \<Rightarrow> (string \<times> document) list \<Rightarrow> (string \<times> document) list" where
  "twice_docs docs docs1 =
     map2 (\<lambda>(k0, d0) (k1, d1). (k1, d1\<lparr>parts := twice_parts (parts d0) (parts d1)\<rparr>))
       docs docs1"

text \<open>
  The recogniser answers for the documents after the first run as it did before it; the two
  other lookups and the lookup by document id are functions of ids and cannot differ.
\<close>

definition same_lookups ::
  "services \<Rightarrow> (string \<times> document) list \<Rightarrow> (string \<times> document) list \<Rightarrow> bool" where
  "same_lookups svc docs docs1 =
     list_all2 (\<lambda>(k0, d0) (k1, d1). get_genes_for_text svc d1 k1 = get_genes_for_text svc d0 k0)
       docs docs1"

definition ds0_twice :: dataset where
  "ds0_twice = \<lparr> documents = [(''d0'',
      \<lparr> parts = [(''p0'', part0), (''p1'', part1\<lparr>predicted_annotations := [ann0, ann0]\<rparr>)] \<rparr>)] \<rparr>"

section \<open>What a run is expected to do\<close>

text \<open>
  The events expected of the work on one document, written from the results of the services:
  the fetch; then, when it returned and \<open>uniprot\<close> is set, Swissprot entered, asked and left;
  then, when nothing raised so far, the GO service entered, asked and left.
\<close>

definition doc_events :: "services \<Rightarrow> bool \<Rightarrow> string \<Rightarrow> document \<Rightarrow> event list" where
  "doc_events svc uniprot docid doc =
     (let marker = str_in ''Conclusion'' (get_text doc)
      in (if marker then Call_get_genes_for_text doc docid else Call_get_genes_for_pmid docid) #
         (case (if marker then get_genes_for_text svc doc docid
                else get_genes_for_pmid svc docid) of
            Inl e \<Rightarrow> []
          | Inr genes \<Rightarrow>
              (if uniprot
               then [Enter Swissprot,
                     Call_get_uniprotid_for_entrez_geneid (uniquify_genes svc genes),
                     Exit Swissprot]
               else []) @
              (case (if uniprot
                     then get_uniprotid_for_entrez_geneid svc (uniquify_genes svc genes)
                     else Inr []) of
                 Inl e \<Rightarrow> []
               | Inr genes_mapping \<Rightarrow>
                   [Enter GOTerms,
                    Call_get_goterms_for_uniprot_id (uniquify_proteins (dict_values genes_mapping)),
                    Exit GOTerms])))"

text \<open>
  Between the events of GNormPlus: every entering of Swissprot or of the GO service is followed
  at once by one call of its lookup and by its leaving; no lookup is called outside such a
  bracket, and GNormPlus is neither entered nor left.
\<close>

fun released_in_place :: "event list \<Rightarrow> bool" where
  "released_in_place [] = True"
| "released_in_place (Enter Swissprot # Call_get_uniprotid_for_entrez_geneid ids # Exit Swissprot # evs) =
     released_in_place evs"
| "released_in_place (Enter GOTerms # Call_get_goterms_for_uniprot_id ids # Exit GOTerms # evs) =
     released_in_place evs"
| "released_in_place (Call_get_genes_for_text doc docid # evs) = released_in_place evs"
| "released_in_place (Call_get_genes_for_pmid docid # evs) = released_in_place evs"
| "released_in_place evs = False"




section \<open>The loops as filters\<close>

lemma str_in_iff: "str_in s t \<longleftrightarrow> (\<exists>pre suf. t = pre @ s @ suf)"
proof (induction t)
  case Nil
  then show ?case by auto
next
  case (Cons c cs)
  show ?case
  proof
    assume "str_in s (c # cs)"
    then consider "prefix s (c # cs)" | "str_in s cs" by auto
    then show "\<exists>pre suf. c # cs = pre @ s @ suf"
    proof cases
      case 1
      then obtain suf where "c # cs = s @ suf" by (auto simp: prefix_def)
      then have "c # cs = [] @ s @ suf" by simp
      then show ?thesis by blast
    next
      case 2
      with Cons obtain pre suf where "cs = pre @ s @ suf" by blast
      then have "c # cs = (c # pre) @ s @ suf" by simp
      then show ?thesis by blast
    qed
  next
    assume "\<exists>pre suf. c # cs = pre @ s @ suf"
    then obtain pre suf where e: "c # cs = pre @ s @ suf" by blast
    show "str_in s (c # cs)"
    proof (cases pre)
      case Nil
      with e have "prefix s (c # cs)" by (simp add: prefix_def)
      then show ?thesis by simp
    next
      case (Cons a pre')
      with e have "cs = pre' @ s @ suf" by simp
      with Cons.IH have "str_in s cs" by blast
      then show ?thesis by simp
    qed
  qed
qed

lemma store_all_Nil: "store_all a [] p = p"
  by (simp add: store_all_def)

lemma store_store_all: "store_all a es (store a e p) = store_all a (e # es) p"
  by (simp add: store_all_def store_def)

lemma part_text_store: "part_text (store a e p) = part_text p"
  by (simp add: store_def)

lemma genes_loop_eq:
  "genes_loop tf gm gom a lo hi genes p =
     store_all a (map (\<lambda>g. make_ann tf gm gom g (gene_0 g - lo)) (filter (passes lo hi p) genes)) p"
proof (induction genes arbitrary: p)
  case Nil
  show ?case by (simp add: store_all_Nil)
next
  case (Cons g genes)
  have same: "passes lo hi (store a e p) = passes lo hi p" for e
    by (rule ext) (simp add: passes_def part_text_store)
  have step: "genes_loop tf gm gom a lo hi (g # genes) p =
      genes_loop tf gm gom a lo hi genes
        (if passes lo hi p g then store a (make_ann tf gm gom g (gene_0 g - lo)) p else p)"
    by (simp add: passes_def)
  show ?case
  proof (cases "passes lo hi p g")
    case True
    then show ?thesis
      by (simp only: step Cons.IH same store_store_all if_True filter.simps list.map)
  next
    case False
    then show ?thesis
      by (simp only: step Cons.IH if_False filter.simps)
  qed
qed

lemma parts_loop_length: "length (parts_loop tf gm gom a genes start ps) = length ps"
  by (induction ps arbitrary: start) (auto simp: Let_def)

lemma parts_loop_nth:
  "i < length ps \<Longrightarrow>
   parts_loop tf gm gom a genes start ps ! i =
     (fst (ps ! i),
      genes_loop tf gm gom a
        (start + cumulative_start (part_lengths ps) i)
        (start + cumulative_start (part_lengths ps) (Suc i))
        genes (snd (ps ! i)))"
proof (induction ps arbitrary: start i)
  case Nil
  then show ?case by simp
next
  case (Cons kp ps)
  obtain k p where kp: "kp = (k, p)" by (cases kp)
  show ?case
  proof (cases i)
    case 0
    then show ?thesis by (simp add: kp Let_def cumulative_start_def part_lengths_def)
  next
    case (Suc j)
    with Cons.prems have "j < length ps" by simp
    from Cons.IH [OF this, of "start + (get_size p + 1)"] show ?thesis
      by (simp add: kp Let_def Suc cumulative_start_def part_lengths_def algebra_simps)
  qed
qed

lemma part_text_store_all: "part_text (store_all a es p) = part_text p"
  by (simp add: store_all_def)

lemma get_size_store_all: "get_size (store_all a es p) = get_size p"
  by (simp add: get_size_def part_text_store_all)

section \<open>From one part to the dataset\<close>

lemma added_store_all: "added p (store_all a es p) = es"
  by (simp add: added_def store_all_def)

lemma added_same: "added p p = []"
  by (simp add: added_def)

lemma store_all_added_same: "store_all a (added p p) p = p"
  by (simp add: added_def store_all_def)

lemma parts_rel_refl: "(\<And>p. R p p) \<Longrightarrow> parts_rel R ps ps"
  by (induction ps) (auto simp: parts_rel_def)

lemma docs_rel_refl: "(\<And>p. R p p) \<Longrightarrow> docs_rel R ds ds"
  by (induction ds) (auto simp: docs_rel_def parts_rel_refl)

lemma parts_loop_rel:
  assumes step: "\<And>lo p. R p (genes_loop tf gm gom a lo (lo + (get_size p + 1)) genes p)"
  shows "parts_rel R ps (parts_loop tf gm gom a genes start ps)"
proof (induction ps arbitrary: start)
  case Nil
  show ?case by (simp add: parts_rel_def)
next
  case (Cons kp ps)
  obtain k p where kp: "kp = (k, p)" by (cases kp)
  from Cons [of "start + (get_size p + 1)"] step [of p start] show ?case
    by (simp add: kp parts_rel_def Let_def)
qed

lemma tag_doc_Inr:
  assumes "tag_doc svc tf a u docid doc = (Inr doc', tr)"
  obtains genes gm gom where
    "doc' = doc\<lparr>parts := parts_loop tf gm gom a genes 0 (parts doc)\<rparr>"
    "fst (fetch_genes svc docid doc) = Inr genes"
    "fst (fetch_genes_mapping svc u genes) = Inr gm"
    "fst (fetch_goterms_mapping svc gm) = Inr gom"
  using assms
  by (auto simp: tag_doc_def and_then_def done_with_def split: prod.splits sum.splits)

lemma tag_doc_rel:
  assumes step: "\<And>gm gom genes lo p. R p (genes_loop tf gm gom a lo (lo + (get_size p + 1)) genes p)"
    and run: "tag_doc svc tf a u docid doc = (Inr doc', tr)"
  shows "parts_rel R (parts doc) (parts doc')"
proof -
  from run obtain genes gm gom where
    "doc' = doc\<lparr>parts := parts_loop tf gm gom a genes 0 (parts doc)\<rparr>"
    by (rule tag_doc_Inr)
  then show ?thesis using parts_loop_rel [of R tf gm gom a genes "parts doc" 0] step by simp
qed

lemma docs_loop_rel:
  assumes step: "\<And>gm gom genes lo p. R p (genes_loop tf gm gom a lo (lo + (get_size p + 1)) genes p)"
    and same: "\<And>p. R p p"
  shows "docs_loop svc tf a u ds = ((r, ds'), tr) \<Longrightarrow> docs_rel R ds ds'"
proof (induction ds arbitrary: r ds' tr)
  case Nil
  then show ?case by (simp add: docs_rel_def)
next
  case (Cons kd ds)
  obtain k d where kd: "kd = (k, d)" by (cases kd)
  obtain res tr1 where td: "tag_doc svc tf a u k d = (res, tr1)" by (cases "tag_doc svc tf a u k d")
  show ?case
  proof (cases res)
    case (Inl e)
    with Cons.prems td kd have "ds' = kd # ds" by simp
    then show ?thesis using docs_rel_refl [of R, OF same] by simp
  next
    case (Inr d')
    obtain r2 ds2 tr2 where rest: "docs_loop svc tf a u ds = ((r2, ds2), tr2)"
      by (metis prod.exhaust)
    with Cons.prems td kd Inr have ds': "ds' = (k, d') # ds2" by simp
    from Cons.IH [OF rest] have "docs_rel R ds ds2" .
    moreover from td Inr have "parts_rel R (parts d) (parts d')"
      using tag_doc_rel [of R tf a svc u k d d' tr1] step by simp
    ultimately show ?thesis by (simp add: ds' kd docs_rel_def)
  qed
qed

lemma tag_rel:
  assumes step: "\<And>gm gom genes lo p. R p (genes_loop tf gm gom a lo (lo + (get_size p + 1)) genes p)"
    and same: "\<And>p. R p p"
    and run: "tag svc tf ds a u = ((r, ds'), tr)"
  shows "docs_rel R (documents ds) (documents ds')"
proof -
  obtain r2 ds2 tr2 where rest: "docs_loop svc tf a u (documents ds) = ((r2, ds2), tr2)"
    by (metis prod.exhaust)
  with run have "documents ds' = ds2" by (auto simp: tag_def with_resource_def)
  with docs_loop_rel [of R tf a svc u "documents ds" r2 ds2 tr2, OF step same rest] show ?thesis
    by simp
qed

section \<open>The worked example, evaluated\<close>

lemma gene_3_g0: "gene_3 g0 = ''G1''"
  by (simp add: g0_def)

lemma get_text_doc0: "get_text doc0 = ''AAAA Conclusion BBBB''"
  by (simp add: get_text_def doc0_def part0_def part1_def)

lemma marker_doc0: "str_in ''Conclusion'' (get_text doc0)"
  by (simp add: get_text_doc0)

lemma parts_doc0:
  "parts_loop tf0 [(''G1'', [''P1''])] [(''P1'', [''GO:TARGET''])] False [g0] 0 (parts doc0)
   = parts doc0_tagged"
  by (simp add: doc0_def doc0_tagged_def part0_def part1_def g0_def ann0_def get_size_def Let_def
      store_def make_ann_def classify_def norm_dict_def tf0_def)

lemma tag_doc0:
  "tag_doc svc0 tf0 False True ''d0'' doc0 = (Inr doc0_tagged, doc_events0 doc0 ''d0'')"
  by (simp add: tag_doc_def fetch_genes_def marker_doc0 fetch_genes_mapping_def
      fetch_goterms_mapping_def with_resource_def call_def and_then_def done_with_def svc0_def
      Let_def uniquify_proteins_def dict_values_def parts_doc0 gene_3_g0 doc_events0_def)

lemma tag_ds0:
  "tag svc0 tf0 ds0 False True =
     ((None, ds0_tagged), Enter GNormPlus # doc_events0 doc0 ''d0'' @ [Exit GNormPlus])"
  by (simp add: tag_def ds0_def ds0_tagged_def tag_doc0 with_resource_def)

section \<open>More of the worked examples\<close>

lemma no_marker_doc_a: "\<not> str_in ''Conclusion'' (get_text doc_a)"
  by (simp add: get_text_def doc_a_def part0_def)

lemma tag_ds_a:
  "tag (svc_of genes) tf0 ds_a False False =
     ((None, ds_a\<lparr>documents := [(''d0'', doc_a\<lparr>parts :=
         [(''p0'', genes_loop tf0 [] [(''P1'', [''GO:TARGET''])] False 0 5 genes part0)]\<rparr>)]\<rparr>),
      events_a)"
  by (simp add: tag_def ds_a_def tag_doc_def fetch_genes_def no_marker_doc_a
      fetch_genes_mapping_def fetch_goterms_mapping_def with_resource_def call_def and_then_def
      done_with_def svc_of_def Let_def uniquify_proteins_def dict_values_def events_a_def)
    (simp add: doc_a_def get_size_def part0_def)

lemma genes_loop_sep:
  "genes_loop tf0 [] [(''P1'', [''GO:TARGET''])] False 0 5 [g_sep] part0 =
     part0\<lparr>predicted_annotations := [ann_sep]\<rparr>"
  by (simp add: g_sep_def part0_def ann_sep_def store_def make_ann_def classify_def norm_dict_def)

lemma genes_loop_other:
  "genes_loop tf0 [] [(''P1'', [''GO:TARGET''])] False 0 5 [g_other] part0 = part0"
  by (simp add: g_other_def part0_def)

lemma tag_ds_sep: "tag (svc_of [g_sep]) tf0 ds_a False False = ((None, ds_sep_tagged), events_a)"
  by (simp only: tag_ds_a genes_loop_sep) (simp add: ds_a_def doc_a_def ds_sep_tagged_def)

lemma tag_ds_other: "tag (svc_of [g_other]) tf0 ds_a False False = ((None, ds_a), events_a)"
  by (simp only: tag_ds_a genes_loop_other) (simp add: ds_a_def doc_a_def)

section \<open>The windows of the parts\<close>

lemma cumulative_start_mono:
  assumes "\<forall>x \<in> set L. 0 \<le> x" and "i \<le> j"
  shows "cumulative_start L i \<le> cumulative_start L j"
proof -
  from \<open>i \<le> j\<close> obtain k where j: "j = i + k" by (auto simp: le_iff_add)
  have "take (i + k) L = take i L @ take k (drop i L)" by (simp add: take_add)
  then have "sum_list (take j L) = sum_list (take i L) + sum_list (take k (drop i L))"
    by (simp add: j)
  moreover have "0 \<le> sum_list (take k (drop i L))"
  proof (rule sum_list_nonneg)
    fix x assume "x \<in> set (take k (drop i L))"
    then have "x \<in> set L" by (meson in_set_takeD in_set_dropD)
    with assms(1) show "0 \<le> x" by blast
  qed
  ultimately show ?thesis using \<open>i \<le> j\<close> by (simp add: cumulative_start_def)
qed

lemma part_lengths_nonneg: "\<forall>x \<in> set (part_lengths ps). 0 \<le> x"
  by (auto simp: part_lengths_def get_size_def)

lemma cumulative_start_doc0:
  "cumulative_start (part_lengths (parts doc0)) (Suc 0) = 5"
  "cumulative_start (part_lengths (parts doc0)) (Suc (Suc 0)) = 21"
  by (simp_all add: cumulative_start_def part_lengths_def doc0_def get_size_def part0_def part1_def)

lemma parts_missing:
  "parts_loop tf0 [(''G1'', [''P1'', ''P2''])] [(''P2'', [''GO:TARGET''])] False [g0] 0 (parts doc0)
   = [(''p0'', part0), (''p1'', part1\<lparr>predicted_annotations := [ann_missing]\<rparr>)]"
  by (simp add: doc0_def part0_def part1_def g0_def ann_missing_def get_size_def Let_def
      store_def make_ann_def classify_def norm_dict_def tf0_def)

lemma tag_doc_a_other:
  "tag_doc (svc_of [g_other]) tf0 False True docid doc_a = (Inr doc_a, doc_events_a docid)"
  by (simp add: tag_doc_def fetch_genes_def no_marker_doc_a fetch_genes_mapping_def
      fetch_goterms_mapping_def with_resource_def call_def and_then_def done_with_def svc_of_def
      Let_def uniquify_proteins_def dict_values_def doc_events_a_def)
     (simp add: doc_a_def g_other_def part0_def Let_def)

lemma tag_ds_two:
  "tag (svc_of [g_other]) tf0 ds_two False True =
     ((None, ds_two),
      Enter GNormPlus # doc_events_a ''d0'' @ doc_events_a ''d1'' @ [Exit GNormPlus])"
  by (simp add: tag_def ds_two_def tag_doc_a_other with_resource_def)

lemma tag_ds_two_fail:
  "tag svc_fail tf0 ds_two False True =
     ((Some AdapterFailure, ds_two),
      [Enter GNormPlus, Call_get_genes_for_pmid ''d0'',
       Enter Swissprot, Call_get_uniprotid_for_entrez_geneid {''G1''}, Exit Swissprot,
       Enter GOTerms, Call_get_goterms_for_uniprot_id {''P1''}, Exit GOTerms,
       Exit GNormPlus])"
  by (simp add: tag_def ds_two_def with_resource_def tag_doc_def fetch_genes_def no_marker_doc_a
      fetch_genes_mapping_def fetch_goterms_mapping_def call_def and_then_def done_with_def
      svc_fail_def Let_def uniquify_proteins_def dict_values_def gene_3_g0)

section \<open>The events of a run\<close>

lemma tag_doc_no_gnorm:
  "Enter GNormPlus \<notin> set (snd (tag_doc svc tf a u docid doc))"
  "Exit GNormPlus \<notin> set (snd (tag_doc svc tf a u docid doc))"
  by (auto simp: tag_doc_def fetch_genes_def fetch_genes_mapping_def fetch_goterms_mapping_def
      and_then_def call_def done_with_def with_resource_def Let_def
      split: sum.splits prod.splits if_splits)

lemma tag_doc_balanced:
  "count_list (snd (tag_doc svc tf a u docid doc)) (Enter res) =
   count_list (snd (tag_doc svc tf a u docid doc)) (Exit res)"
  by (auto simp: tag_doc_def fetch_genes_def fetch_genes_mapping_def fetch_goterms_mapping_def
      and_then_def call_def done_with_def with_resource_def Let_def
      split: sum.splits prod.splits if_splits)

lemma tag_doc_once:
  "tag_doc svc tf a u docid doc = (Inr doc', tr) \<Longrightarrow>
   count_list tr (Enter GOTerms) = 1 \<and> count_list tr (Enter Swissprot) = (if u then 1 else 0)"
  by (auto simp: tag_doc_def fetch_genes_def fetch_genes_mapping_def fetch_goterms_mapping_def
      and_then_def call_def done_with_def with_resource_def Let_def
      split: sum.splits prod.splits if_splits)

lemma count_list_append: "count_list (xs @ ys) x = count_list xs x + count_list ys x"
  by (induction xs) auto

lemma count_list_absent: "x \<notin> set xs \<Longrightarrow> count_list xs x = 0"
  by (induction xs) auto

lemma docs_loop_cases:
  assumes "docs_loop svc tf a u ((k, d) # ds) = ((r, ds'), tr)"
  obtains (raised) e where "tag_doc svc tf a u k d = (Inl e, tr)" "r = Some e"
  | (returned) d' tr1 ds2 tr2 where "tag_doc svc tf a u k d = (Inr d', tr1)"
      "docs_loop svc tf a u ds = ((r, ds2), tr2)" "tr = tr1 @ tr2" "ds' = (k, d') # ds2"
  using assms by (auto split: sum.splits prod.splits)

lemma docs_loop_no_gnorm:
  "docs_loop svc tf a u ds = ((r, ds'), tr) \<Longrightarrow>
   Enter GNormPlus \<notin> set tr \<and> Exit GNormPlus \<notin> set tr"
proof (induction ds arbitrary: r ds' tr)
  case Nil
  then show ?case by simp
next
  case (Cons kd ds)
  obtain k d where kd: "kd = (k, d)" by (cases kd)
  from Cons.prems [unfolded kd] show ?case
  proof (cases rule: docs_loop_cases)
    case (raised e)
    then show ?thesis using tag_doc_no_gnorm [of svc tf a u k d] by simp
  next
    case (returned d' tr1 ds2 tr2)
    then show ?thesis
      using tag_doc_no_gnorm [of svc tf a u k d] Cons.IH [of r ds2 tr2] by simp
  qed
qed

lemma docs_loop_balanced:
  "docs_loop svc tf a u ds = ((r, ds'), tr) \<Longrightarrow>
   count_list tr (Enter res) = count_list tr (Exit res)"
proof (induction ds arbitrary: r ds' tr)
  case Nil
  then show ?case by simp
next
  case (Cons kd ds)
  obtain k d where kd: "kd = (k, d)" by (cases kd)
  from Cons.prems [unfolded kd] show ?case
  proof (cases rule: docs_loop_cases)
    case (raised e)
    then show ?thesis using tag_doc_balanced [of svc tf a u k d res] by simp
  next
    case (returned d' tr1 ds2 tr2)
    then show ?thesis
      using tag_doc_balanced [of svc tf a u k d res] Cons.IH [of r ds2 tr2]
      by (simp add: count_list_append)
  qed
qed

lemma docs_loop_once:
  "docs_loop svc tf a u ds = ((None, ds'), tr) \<Longrightarrow>
   count_list tr (Enter GOTerms) = length ds
   \<and> count_list tr (Enter Swissprot) = (if u then length ds else 0)"
proof (induction ds arbitrary: ds' tr)
  case Nil
  then show ?case by simp
next
  case (Cons kd ds)
  obtain k d where kd: "kd = (k, d)" by (cases kd)
  from Cons.prems [unfolded kd] show ?case
  proof (cases rule: docs_loop_cases)
    case (raised e)
    then show ?thesis by simp
  next
    case (returned d' tr1 ds2 tr2)
    then show ?thesis
      using tag_doc_once [of svc tf a u k d d' tr1] Cons.IH [of ds2 tr2]
      by (simp add: count_list_append)
  qed
qed

lemma snd_tag_doc: "snd (tag_doc svc tf a u docid doc) = doc_events svc u docid doc"
  by (auto simp: tag_doc_def doc_events_def fetch_genes_def fetch_genes_mapping_def
      fetch_goterms_mapping_def and_then_def call_def done_with_def with_resource_def Let_def
      split: sum.splits prod.splits)

lemma released_doc_events:
  "released_in_place (doc_events svc u docid doc @ evs) = released_in_place evs"
  by (simp add: doc_events_def Let_def split: sum.splits)

lemma released_concat:
  "released_in_place (concat (map (\<lambda>(docid, doc). doc_events svc u docid doc) ds))"
  by (induction ds) (auto simp: released_doc_events)

lemma doc_events_at_most_once:
  "count_list (doc_events svc u docid doc) (Enter Swissprot) \<le> 1
   \<and> count_list (doc_events svc u docid doc) (Enter GOTerms) \<le> 1"
  by (simp add: doc_events_def Let_def split: sum.splits)

lemma docs_loop_events:
  "docs_loop svc tf a u ds = ((r, ds'), tr) \<Longrightarrow>
   \<exists>n \<le> length ds. (r = None \<longrightarrow> n = length ds) \<and> (r \<noteq> None \<longrightarrow> 0 < n)
     \<and> tr = concat (map (\<lambda>(docid, doc). doc_events svc u docid doc) (take n ds))
     \<and> (\<forall>(docid, doc) \<in> set (take (if r = None then n else n - 1) ds).
           count_list (doc_events svc u docid doc) (Enter GOTerms) = 1
           \<and> count_list (doc_events svc u docid doc) (Enter Swissprot) = (if u then 1 else 0))"
proof (induction ds arbitrary: r ds' tr)
  case Nil
  then show ?case by simp
next
  case (Cons kd ds)
  obtain k d where kd: "kd = (k, d)" by (cases kd)
  let ?ok = "\<lambda>(docid, doc). count_list (doc_events svc u docid doc) (Enter GOTerms) = 1
           \<and> count_list (doc_events svc u docid doc) (Enter Swissprot) = (if u then 1 else 0)"
  from Cons.prems [unfolded kd] show ?case
  proof (cases rule: docs_loop_cases)
    case (raised e)
    then have "tr = doc_events svc u k d" using snd_tag_doc [of svc tf a u k d] by simp
    then have "Suc 0 \<le> length (kd # ds) \<and> (r = None \<longrightarrow> Suc 0 = length (kd # ds))
        \<and> (r \<noteq> None \<longrightarrow> 0 < Suc 0)
        \<and> tr = concat (map (\<lambda>(docid, doc). doc_events svc u docid doc) (take (Suc 0) (kd # ds)))
        \<and> (\<forall>x \<in> set (take (if r = None then Suc 0 else Suc 0 - 1) (kd # ds)). ?ok x)"
      using raised(2) by (simp add: kd)
    then show ?thesis by blast
  next
    case (returned d' tr1 ds2 tr2)
    from Cons.IH [OF returned(2)] obtain n where n: "n \<le> length ds"
      "r = None \<longrightarrow> n = length ds" "r \<noteq> None \<longrightarrow> 0 < n"
      "tr2 = concat (map (\<lambda>(docid, doc). doc_events svc u docid doc) (take n ds))"
      "\<forall>x \<in> set (take (if r = None then n else n - 1) ds). ?ok x"
      by blast
    have tr1: "tr1 = doc_events svc u k d"
      using returned(1) snd_tag_doc [of svc tf a u k d] by simp
    have ok: "?ok (k, d)"
      using tag_doc_once [OF returned(1)] by (simp add: tr1)
    have tk: "take (if r = None then Suc n else Suc n - 1) (kd # ds) =
        kd # take (if r = None then n else n - 1) ds"
      using n(3) by (cases n) auto
    have "Suc n \<le> length (kd # ds) \<and> (r = None \<longrightarrow> Suc n = length (kd # ds))
        \<and> (r \<noteq> None \<longrightarrow> 0 < Suc n)
        \<and> tr = concat (map (\<lambda>(docid, doc). doc_events svc u docid doc) (take (Suc n) (kd # ds)))
        \<and> (\<forall>x \<in> set (take (if r = None then Suc n else Suc n - 1) (kd # ds)). ?ok x)"
      unfolding tk using n ok tr1 returned(3) by (simp add: kd)
    then show ?thesis by blast
  qed
qed

lemma doc_events_fail:
  "doc_events svc_fail True docid doc_a =
     [Call_get_genes_for_pmid docid,
      Enter Swissprot, Call_get_uniprotid_for_entrez_geneid {''G1''}, Exit Swissprot,
      Enter GOTerms, Call_get_goterms_for_uniprot_id {''P1''}, Exit GOTerms]"
  by (simp add: doc_events_def no_marker_doc_a svc_fail_def uniquify_proteins_def dict_values_def
      gene_3_g0)

section \<open>A second run\<close>

lemma twice_part_same: "twice_part p p = p"
  by (simp add: twice_part_def produced_def)

lemma twice_parts_same: "twice_parts ps ps = ps"
  by (induction ps) (auto simp: twice_parts_def twice_part_same)

lemma twice_docs_same: "twice_docs ds ds = ds"
  by (induction ds) (auto simp: twice_docs_def twice_parts_same)

lemma genes_loop_twice:
  "genes_loop tf gm gom False lo hi genes (genes_loop tf gm gom False lo hi genes p) =
     twice_part p (genes_loop tf gm gom False lo hi genes p)"
proof -
  have same: "passes lo hi (store_all False es p) = passes lo hi p" for es
    by (rule ext) (simp add: passes_def part_text_store_all)
  show ?thesis
    unfolding genes_loop_eq same
    by (simp add: store_all_def twice_part_def produced_def)
qed

lemma get_size_genes_loop: "get_size (genes_loop tf gm gom a lo hi genes p) = get_size p"
  by (simp add: genes_loop_eq get_size_store_all)

lemma part_text_genes_loop: "part_text (genes_loop tf gm gom a lo hi genes p) = part_text p"
  by (simp add: genes_loop_eq part_text_store_all)

lemma parts_loop_twice:
  "parts_loop tf gm gom False genes start (parts_loop tf gm gom False genes start ps) =
     twice_parts ps (parts_loop tf gm gom False genes start ps)"
proof (induction ps arbitrary: start)
  case Nil
  show ?case by (simp add: twice_parts_def)
next
  case (Cons kp ps)
  obtain k p where kp: "kp = (k, p)" by (cases kp)
  from Cons [of "start + (get_size p + 1)"] show ?case
    by (simp add: kp Let_def get_size_genes_loop genes_loop_twice twice_parts_def)
qed

lemma parts_loop_texts:
  "map (\<lambda>(partid, p). part_text p) (parts_loop tf gm gom a genes start ps) =
   map (\<lambda>(partid, p). part_text p) ps"
  by (induction ps arbitrary: start) (auto simp: Let_def part_text_genes_loop)

lemma fst_and_then:
  "fst (and_then m f) = (case fst m of Inl e \<Rightarrow> Inl e | Inr x \<Rightarrow> fst (f x))"
  by (auto simp: and_then_def split: prod.splits sum.splits)

lemma fst_tag_doc:
  "fst (tag_doc svc tf a u docid doc) =
     (case fst (fetch_genes svc docid doc) of
        Inl e \<Rightarrow> Inl e
      | Inr genes \<Rightarrow>
          (case fst (fetch_genes_mapping svc u genes) of
             Inl e \<Rightarrow> Inl e
           | Inr gm \<Rightarrow>
               (case fst (fetch_goterms_mapping svc gm) of
                  Inl e \<Rightarrow> Inl e
                | Inr gom \<Rightarrow> Inr (doc\<lparr>parts := parts_loop tf gm gom a genes 0 (parts doc)\<rparr>))))"
  by (simp add: tag_doc_def fst_and_then done_with_def split: sum.splits)

lemma fst_fetch_genes:
  "fst (fetch_genes svc docid doc) =
     (if str_in ''Conclusion'' (get_text doc) then get_genes_for_text svc doc docid
      else get_genes_for_pmid svc docid)"
  by (simp add: fetch_genes_def call_def)

lemma tag_doc_twice:
  assumes run: "tag_doc svc tf False u docid doc = (Inr doc1, tr)"
    and same: "get_genes_for_text svc doc1 docid = get_genes_for_text svc doc docid"
  shows "fst (tag_doc svc tf False u docid doc1) =
           Inr (doc1\<lparr>parts := twice_parts (parts doc) (parts doc1)\<rparr>)"
proof -
  from run obtain genes gm gom where
    doc1: "doc1 = doc\<lparr>parts := parts_loop tf gm gom False genes 0 (parts doc)\<rparr>"
    and f1: "fst (fetch_genes svc docid doc) = Inr genes"
    and f2: "fst (fetch_genes_mapping svc u genes) = Inr gm"
    and f3: "fst (fetch_goterms_mapping svc gm) = Inr gom"
    by (rule tag_doc_Inr)
  have "get_text doc1 = get_text doc"
    by (simp add: doc1 get_text_def parts_loop_texts)
  with same f1 have "fst (fetch_genes svc docid doc1) = Inr genes"
    by (auto simp: fst_fetch_genes split: if_splits)
  then show ?thesis
    by (simp add: fst_tag_doc f2 f3) (simp add: doc1 parts_loop_twice)
qed

lemma docs_loop_twice:
  "docs_loop svc tf False u ds = ((r1, ds1), tr1) \<Longrightarrow> same_lookups svc ds ds1 \<Longrightarrow>
   fst (docs_loop svc tf False u ds1) = (r1, twice_docs ds ds1)"
proof (induction ds arbitrary: r1 ds1 tr1)
  case Nil
  then show ?case by (simp add: twice_docs_def)
next
  case (Cons kd ds)
  obtain k d where kd: "kd = (k, d)" by (cases kd)
  from Cons.prems(1) [unfolded kd] show ?case
  proof (cases rule: docs_loop_cases)
    case (raised e)
    from Cons.prems(1) raised have ds1: "ds1 = (k, d) # ds" by (simp add: kd)
    show ?thesis using raised by (simp add: ds1 kd twice_docs_same)
  next
    case (returned d' tra ds2 trb)
    from Cons.prems(2) returned(4)
    have same_hd: "get_genes_for_text svc d' k = get_genes_for_text svc d k"
      and same_tl: "same_lookups svc ds ds2"
      by (simp_all add: same_lookups_def kd)
    from tag_doc_twice [OF returned(1) same_hd]
    obtain tr' where td: "tag_doc svc tf False u k d' =
        (Inr (d'\<lparr>parts := twice_parts (parts d) (parts d')\<rparr>), tr')"
      by (metis prod.collapse)
    from Cons.IH [OF returned(2) same_tl]
    obtain tr'' where rest: "docs_loop svc tf False u ds2 = ((r1, twice_docs ds ds2), tr'')"
      by (metis prod.collapse)
    show ?thesis
      by (simp add: returned(4) td rest kd) (simp add: twice_docs_def)
  qed
qed

lemma single_run_appends:
  assumes "tag svc tf ds False uniprot = ((r, ds'), tr)"
  shows "docs_rel
           (\<lambda>p0 p1. p1 = p0\<lparr>predicted_annotations := predicted_annotations p0 @ produced p0 p1\<rparr>)
           (documents ds) (documents ds')"
proof (rule tag_rel [OF _ _ assms])
  fix p
  show "p = p\<lparr>predicted_annotations := predicted_annotations p @ produced p p\<rparr>"
    by (simp add: produced_def)
next
  fix gm gom genes lo p
  let ?p' = "genes_loop tf gm gom False lo (lo + (get_size p + 1)) genes p"
  show "?p' = p\<lparr>predicted_annotations := predicted_annotations p @ produced p ?p'\<rparr>"
    by (simp add: genes_loop_eq store_all_def produced_def)
qed

section \<open>From one document to the dataset\<close>







section \<open>The claims\<close>

subsection \<open>C1\<close>

text \<open>
  C1 at the failing input: the gene maps to the proteins \<open>P1\<close> and \<open>P2\<close>, and only \<open>P2\<close>
  has an entry in \<open>goterms_mapping\<close>, with a term of the target list. The \<open>KeyError\<close> for
  \<open>P1\<close> ends the loop over the proteins, so the entity keeps \<open>PRO_CLASS_ID\<close>; with the
  proteins in the other order the same data give \<open>MUT_CLASS_ID\<close>.
\<close>

theorem C1_missing_entry_ends_the_check:
  "fst (tag svc_missing tf0 ds0 False True) = (None, ds_missing_tagged)
   \<and> class_id ann_missing = PRO_CLASS_ID
   \<and> ''GO:TARGET'' \<in> set tf0
   \<and> classify tf0 [(''G1'', [''P1'', ''P2''])] [(''P2'', [''GO:TARGET''])] g0 = PRO_CLASS_ID
   \<and> classify tf0 [(''G1'', [''P2'', ''P1''])] [(''P2'', [''GO:TARGET''])] g0 = MUT_CLASS_ID"
proof -
  have "tag_doc svc_missing tf0 False True ''d0'' doc0 =
      (Inr (doc0\<lparr>parts := [(''p0'', part0), (''p1'', part1\<lparr>predicted_annotations := [ann_missing]\<rparr>)]\<rparr>),
       [Call_get_genes_for_text doc0 ''d0'',
        Enter Swissprot, Call_get_uniprotid_for_entrez_geneid {''G1''}, Exit Swissprot,
        Enter GOTerms, Call_get_goterms_for_uniprot_id {''P1'', ''P2''}, Exit GOTerms])"
    by (simp add: tag_doc_def fetch_genes_def marker_doc0 fetch_genes_mapping_def
      fetch_goterms_mapping_def with_resource_def call_def and_then_def done_with_def
      svc_missing_def Let_def uniquify_proteins_def dict_values_def parts_missing [unfolded tf0_def]
      gene_3_g0 tf0_def)
  then have "fst (tag svc_missing tf0 ds0 False True) = (None, ds_missing_tagged)"
    by (simp add: tag_def ds0_def ds_missing_tagged_def with_resource_def)
  moreover have "classify tf0 [(''G1'', [''P1'', ''P2''])] [(''P2'', [''GO:TARGET''])] g0 = PRO_CLASS_ID"
    by (simp add: classify_def g0_def tf0_def)
  moreover have "classify tf0 [(''G1'', [''P2'', ''P1''])] [(''P2'', [''GO:TARGET''])] g0 = MUT_CLASS_ID"
    by (simp add: classify_def g0_def tf0_def)
  ultimately show ?thesis by (simp add: ann_missing_def tf0_def)
qed

subsection \<open>C2\<close>

text \<open>
  C2, as stated, fails: a mention whose offset lies in the window of a part is not stored
  there when its text does not occur in the text of the part.
\<close>

theorem C2_alignment_counterexample:
  "cumulative_start (part_lengths (parts doc_a)) 0 \<le> gene_0 g_other
   \<and> gene_0 g_other < cumulative_start (part_lengths (parts doc_a)) 1
   \<and> tag (svc_of [g_other]) tf0 ds_a False False = ((None, ds_a), events_a)"
  by (simp add: tag_ds_other)
     (simp add: cumulative_start_def part_lengths_def doc_a_def g_other_def get_size_def)

text \<open>
  C2, amended: part \<open>i\<close> of a document receives, in the order of the mentions, one entity for
  each mention whose text occurs in the text of the part and whose offset \<open>g\<close> lies in the
  window \<open>[cumulative_start(i), cumulative_start(i+1))\<close>, closed on the left; the entity has
  the local offset \<open>g - cumulative_start(i)\<close>. The windows of later parts begin at or behind
  the end of this one, so a mention is stored in one part at most, and a mention that passes the
  test of no part is stored nowhere. The loop is a total function: nothing is raised.
\<close>

theorem C2_alignment:
  assumes "i < length ps"
  shows "parts_loop tf gm gom annotated genes 0 ps ! i =
           (fst (ps ! i),
            store_all annotated
              (map (\<lambda>g. make_ann tf gm gom g (gene_0 g - cumulative_start (part_lengths ps) i))
                 (filter (passes (cumulative_start (part_lengths ps) i)
                            (cumulative_start (part_lengths ps) (Suc i)) (snd (ps ! i)))
                    genes))
              (snd (ps ! i)))
         \<and> map offset (added (snd (ps ! i)) (snd (parts_loop tf gm gom annotated genes 0 ps ! i))) =
             map (\<lambda>g. gene_0 g - cumulative_start (part_lengths ps) i)
               (filter (passes (cumulative_start (part_lengths ps) i)
                          (cumulative_start (part_lengths ps) (Suc i)) (snd (ps ! i)))
                  genes)
         \<and> (\<forall>j. i < j \<longrightarrow>
               cumulative_start (part_lengths ps) (Suc i) \<le> cumulative_start (part_lengths ps) j)
         \<and> length (parts_loop tf gm gom annotated genes 0 ps) = length ps"
proof -
  let ?lo = "cumulative_start (part_lengths ps) i"
  let ?hi = "cumulative_start (part_lengths ps) (Suc i)"
  have eq: "parts_loop tf gm gom annotated genes 0 ps ! i =
           (fst (ps ! i),
            store_all annotated
              (map (\<lambda>g. make_ann tf gm gom g (gene_0 g - ?lo))
                 (filter (passes ?lo ?hi (snd (ps ! i))) genes))
              (snd (ps ! i)))"
    using parts_loop_nth [OF assms, of tf gm gom annotated genes 0]
    by (simp add: genes_loop_eq)
  have off: "map offset (added (snd (ps ! i)) (snd (parts_loop tf gm gom annotated genes 0 ps ! i))) =
             map (\<lambda>g. gene_0 g - ?lo) (filter (passes ?lo ?hi (snd (ps ! i))) genes)"
    by (simp add: eq added_store_all make_ann_def comp_def)
  have mono: "\<forall>j. i < j \<longrightarrow> ?hi \<le> cumulative_start (part_lengths ps) j"
    using cumulative_start_mono [OF part_lengths_nonneg, of "Suc i" _ ps] by simp
  show ?thesis using eq off mono by (simp add: parts_loop_length)
qed

theorem C2_alignment_witness:
  "(1::nat) < length (parts doc0)
   \<and> parts_loop tf0 [(''G1'', [''P1''])] [(''P1'', [''GO:TARGET''])] False [g0] 0 (parts doc0) ! 1
       = (''p1'', part1\<lparr>predicted_annotations := [ann0]\<rparr>)
   \<and> filter (passes 5 21 part1) [g0] = [g0]
   \<and> gene_0 g0 - cumulative_start (part_lengths (parts doc0)) 1 = 6"
  using C2_alignment [of 1 "parts doc0" tf0 "[(''G1'', [''P1''])]" "[(''P1'', [''GO:TARGET''])]"
      False "[g0]"]
  by (simp add: cumulative_start_doc0 parts_doc0)
     (simp add: doc0_def doc0_tagged_def passes_def g0_def part1_def)

subsection \<open>C3\<close>

text \<open>
  C3, as stated, fails: the window of a part is \<open>[last_index, last_index + size + 1)\<close>, so a
  mention on the separator position behind the part is stored with a local offset equal to the
  length of the part.
\<close>

theorem C3_offset_below_length_counterexample:
  "tag (svc_of [g_sep]) tf0 ds_a False False = ((None, ds_sep_tagged), events_a)
   \<and> parts (snd (hd (documents ds_sep_tagged))) = [(''p0'', part0\<lparr>predicted_annotations := [ann_sep]\<rparr>)]
   \<and> \<not> offset ann_sep < get_size part0"
  by (simp add: tag_ds_sep) (simp add: ds_sep_tagged_def ann_sep_def get_size_def part0_def)

text \<open>
  C3, amended: every entity that \<open>tag\<close> stores in a part has a part-local offset that is
  non-negative and at most the length of the part (the position of the separator included).
\<close>

theorem C3_offset_within_separator:
  assumes "tag svc tf ds annotated uniprot = ((r, ds'), tr)"
  shows "docs_rel
           (\<lambda>p p'. p' = store_all annotated (added p p') p
                    \<and> (\<forall>e \<in> set (added p p'). 0 \<le> offset e \<and> offset e \<le> get_size p))
           (documents ds) (documents ds')"
proof (rule tag_rel [OF _ _ assms])
  fix p
  show "p = store_all annotated (added p p) p \<and>
        (\<forall>e \<in> set (added p p). 0 \<le> offset e \<and> offset e \<le> get_size p)"
    by (simp add: added_same store_all_Nil)
next
  fix gm gom genes lo p
  let ?p' = "genes_loop tf gm gom annotated lo (lo + (get_size p + 1)) genes p"
  show "?p' = store_all annotated (added p ?p') p \<and>
        (\<forall>e \<in> set (added p ?p'). 0 \<le> offset e \<and> offset e \<le> get_size p)"
    by (auto simp: genes_loop_eq added_store_all make_ann_def passes_def)
qed

theorem C3_offset_within_separator_witness:
  "added part0 (part0\<lparr>predicted_annotations := [ann_sep]\<rparr>) = [ann_sep]
   \<and> docs_rel
        (\<lambda>p p'. p' = store_all False (added p p') p
                 \<and> (\<forall>e \<in> set (added p p'). 0 \<le> offset e \<and> offset e \<le> get_size p))
        (documents ds_a) (documents ds_sep_tagged)"
  using C3_offset_within_separator [OF tag_ds_sep]
  by (simp add: added_def part0_def)

subsection \<open>C4\<close>

text \<open>
  C4, as stated, fails: in a run over two documents the Swissprot and the GO service are each
  entered twice, once for each document.
\<close>

theorem C4_acquired_once_counterexample:
  "count_list (snd (tag (svc_of [g_other]) tf0 ds_two False True)) (Enter Swissprot) = 2
   \<and> count_list (snd (tag (svc_of [g_other]) tf0 ds_two False True)) (Enter GOTerms) = 2"
  by (simp add: tag_ds_two doc_events_a_def)

text \<open>
  C4, amended: a run of \<open>tag\<close> enters GNormPlus exactly once, as its first event, and leaves
  it exactly once, as its last event, whether the run returned or raised. In between come the
  events of the documents that the run reached, one document after the other. Swissprot (only
  when \<open>uniprot\<close> is set) and the GO service are entered within the events of a document: at
  most once for a document, exactly once for each document whose work returned, and each is
  left directly behind its one lookup call, before anything else happens, also when that call
  raised.
\<close>

theorem C4_connections:
  assumes "tag svc tf ds annotated uniprot = ((r, ds'), tr)"
  shows "(\<exists>n \<le> length (documents ds).
            (r = None \<longrightarrow> n = length (documents ds))
            \<and> tr = Enter GNormPlus
                  # concat (map (\<lambda>(docid, doc). doc_events svc uniprot docid doc)
                             (take n (documents ds)))
                  @ [Exit GNormPlus]
            \<and> (\<forall>(docid, doc) \<in> set (take (if r = None then n else n - 1) (documents ds)).
                  count_list (doc_events svc uniprot docid doc) (Enter GOTerms) = 1
                  \<and> count_list (doc_events svc uniprot docid doc) (Enter Swissprot)
                      = (if uniprot then 1 else 0)))
         \<and> released_in_place (butlast (tl tr))
         \<and> (\<forall>docid doc.
               count_list (doc_events svc uniprot docid doc) (Enter Swissprot) \<le> 1
               \<and> count_list (doc_events svc uniprot docid doc) (Enter GOTerms) \<le> 1)
         \<and> hd tr = Enter GNormPlus \<and> last tr = Exit GNormPlus
         \<and> count_list tr (Enter GNormPlus) = 1 \<and> count_list tr (Exit GNormPlus) = 1
         \<and> (\<forall>res. count_list tr (Enter res) = count_list tr (Exit res))
         \<and> (r = None \<longrightarrow>
               count_list tr (Enter GOTerms) = length (documents ds)
               \<and> count_list tr (Enter Swissprot) = (if uniprot then length (documents ds) else 0))"
proof -
  obtain r2 ds2 tr2 where rest:
    "docs_loop svc tf annotated uniprot (documents ds) = ((r2, ds2), tr2)"
    by (metis prod.exhaust)
  with assms have tr: "tr = Enter GNormPlus # tr2 @ [Exit GNormPlus]" and r: "r = r2"
    by (auto simp: tag_def with_resource_def)
  from docs_loop_events [OF rest] obtain n where n: "n \<le> length (documents ds)"
    "r = None \<longrightarrow> n = length (documents ds)"
    "tr2 = concat (map (\<lambda>(docid, doc). doc_events svc uniprot docid doc) (take n (documents ds)))"
    "\<forall>(docid, doc) \<in> set (take (if r = None then n else n - 1) (documents ds)).
        count_list (doc_events svc uniprot docid doc) (Enter GOTerms) = 1
        \<and> count_list (doc_events svc uniprot docid doc) (Enter Swissprot)
            = (if uniprot then 1 else 0)"
    unfolding r by blast
  have shape: "\<exists>n \<le> length (documents ds).
            (r = None \<longrightarrow> n = length (documents ds))
            \<and> tr = Enter GNormPlus
                  # concat (map (\<lambda>(docid, doc). doc_events svc uniprot docid doc)
                             (take n (documents ds)))
                  @ [Exit GNormPlus]
            \<and> (\<forall>(docid, doc) \<in> set (take (if r = None then n else n - 1) (documents ds)).
                  count_list (doc_events svc uniprot docid doc) (Enter GOTerms) = 1
                  \<and> count_list (doc_events svc uniprot docid doc) (Enter Swissprot)
                      = (if uniprot then 1 else 0))"
    using n tr by blast
  have rel: "released_in_place (butlast (tl tr))"
    by (simp add: tr n(3) released_concat)
  from docs_loop_no_gnorm [OF rest]
  have ng: "count_list tr2 (Enter GNormPlus) = 0" "count_list tr2 (Exit GNormPlus) = 0"
    by (simp_all add: count_list_absent)
  have bal: "count_list tr (Enter res) = count_list tr (Exit res)" for res
    using docs_loop_balanced [OF rest, of res] by (cases res) (simp_all add: tr count_list_append)
  have once: "count_list tr (Enter GOTerms) = length (documents ds)
      \<and> count_list tr (Enter Swissprot) = (if uniprot then length (documents ds) else 0)"
    if "r = None"
    using docs_loop_once [of svc tf annotated uniprot "documents ds" ds2 tr2] rest that
    by (simp add: tr r count_list_append)
  have ends: "hd tr = Enter GNormPlus" "last tr = Exit GNormPlus"
    by (simp_all add: tr)
  have one: "count_list tr (Enter GNormPlus) = 1" "count_list tr (Exit GNormPlus) = 1"
    by (simp_all add: tr count_list_append ng)
  show ?thesis using shape rel doc_events_at_most_once ends one bal once by blast
qed

theorem C4_connections_witness:
  "tag svc_fail tf0 ds_two False True =
     ((Some AdapterFailure, ds_two),
      [Enter GNormPlus, Call_get_genes_for_pmid ''d0'',
       Enter Swissprot, Call_get_uniprotid_for_entrez_geneid {''G1''}, Exit Swissprot,
       Enter GOTerms, Call_get_goterms_for_uniprot_id {''P1''}, Exit GOTerms,
       Exit GNormPlus])
   \<and> doc_events svc_fail True ''d0'' doc_a =
       [Call_get_genes_for_pmid ''d0'',
        Enter Swissprot, Call_get_uniprotid_for_entrez_geneid {''G1''}, Exit Swissprot,
        Enter GOTerms, Call_get_goterms_for_uniprot_id {''P1''}, Exit GOTerms]
   \<and> released_in_place (butlast (tl (snd (tag svc_fail tf0 ds_two False True))))
   \<and> count_list (snd (tag svc_fail tf0 ds_two False True)) (Exit GOTerms) = 1
   \<and> fst (fst (tag (svc_of [g_other]) tf0 ds_two False True)) = None
   \<and> released_in_place (butlast (tl (snd (tag (svc_of [g_other]) tf0 ds_two False True))))
   \<and> count_list (snd (tag (svc_of [g_other]) tf0 ds_two False True)) (Enter GOTerms)
       = length (documents ds_two)
   \<and> length (documents ds_two) = 2"
  using C4_connections [OF tag_ds_two_fail] C4_connections [OF tag_ds_two] tag_ds_two_fail
  by (simp add: tag_ds_two) (simp add: ds_two_def doc_events_fail)

subsection \<open>C5\<close>

text \<open>
  C5, as stated, fails: without Swissprot normalisation the GO service is still entered and
  asked, with the empty set of ids.
\<close>

theorem C5_resolver_called_counterexample:
  "tag (svc_of [g_other]) tf0 ds_a False False = ((None, ds_a), events_a)
   \<and> Call_get_goterms_for_uniprot_id {} \<in> set events_a"
  by (simp add: tag_ds_other) (simp add: events_a_def)

text \<open>
  C5, amended: with \<open>uniprot = False\<close> the Swissprot service is not touched,
  \<open>genes_mapping\<close> is empty and so is the set of protein ids, and the GO service is entered
  once for the document and asked for the terms of the empty set; the parts are tagged with
  the empty \<open>genes_mapping\<close> and whatever the GO service returned.
\<close>

theorem C5_without_normalization:
  assumes "fetch_genes svc docid doc = (Inr genes, ev)"
  shows "fetch_genes_mapping svc False genes = (Inr [], [])
         \<and> uniquify_proteins (dict_values []) = {}
         \<and> tag_doc svc tf annotated False docid doc =
             (case get_goterms_for_uniprot_id svc {} of
                Inl e \<Rightarrow> Inl e
              | Inr goterms_mapping \<Rightarrow>
                  Inr (doc\<lparr>parts := parts_loop tf [] goterms_mapping annotated genes 0 (parts doc)\<rparr>),
              ev @ [Enter GOTerms, Call_get_goterms_for_uniprot_id {}, Exit GOTerms])"
  using assms
  by (auto simp: tag_doc_def fetch_genes_mapping_def fetch_goterms_mapping_def and_then_def
      call_def done_with_def with_resource_def uniquify_proteins_def dict_values_def Let_def
      split: sum.splits prod.splits)

theorem C5_without_normalization_witness:
  "fetch_genes (svc_of [g_sep]) ''d0'' doc_a = (Inr [g_sep], [Call_get_genes_for_pmid ''d0''])
   \<and> tag_doc (svc_of [g_sep]) tf0 False False ''d0'' doc_a =
       (Inr (doc_a\<lparr>parts := parts_loop tf0 [] [(''P1'', [''GO:TARGET''])] False [g_sep] 0 (parts doc_a)\<rparr>),
        [Call_get_genes_for_pmid ''d0'',
         Enter GOTerms, Call_get_goterms_for_uniprot_id {}, Exit GOTerms])"
proof -
  have f: "fetch_genes (svc_of [g_sep]) ''d0'' doc_a = (Inr [g_sep], [Call_get_genes_for_pmid ''d0''])"
    by (simp add: fetch_genes_def no_marker_doc_a call_def svc_of_def)
  show ?thesis
    using C5_without_normalization [OF f, of tf0 False] f
    by (simp add: svc_of_def)
qed

subsection \<open>C6\<close>



subsection \<open>C7\<close>

text \<open>
  C7: let a run of \<open>tag\<close> in predicted mode take the dataset \<open>ds\<close> to \<open>ds1\<close>, and let the
  recogniser answer for the documents of \<open>ds1\<close> as it did for those of \<open>ds\<close>. The first
  run leaves each part as it was with the produced entities appended to the predicted
  collection, so the gold collection and the text are unchanged. A second run, on \<open>ds1\<close>,
  ends as the first did and leaves each part of \<open>ds1\<close> with the predicted collection of the
  part of \<open>ds\<close> followed by the produced entities twice; nothing else changes.
\<close>

theorem C7_second_run_doubles:
  assumes run: "tag svc tf ds False uniprot = ((r1, ds1), tr1)"
    and same: "same_lookups svc (documents ds) (documents ds1)"
  shows "fst (tag svc tf ds1 False uniprot) =
           (r1, ds1\<lparr>documents := twice_docs (documents ds) (documents ds1)\<rparr>)
         \<and> docs_rel
             (\<lambda>p0 p1. p1 = p0\<lparr>predicted_annotations :=
                                  predicted_annotations p0 @ produced p0 p1\<rparr>)
             (documents ds) (documents ds1)"
proof -
  obtain r ds' tr where rest: "docs_loop svc tf False uniprot (documents ds) = ((r, ds'), tr)"
    by (metis prod.exhaust)
  with run have r: "r1 = r" and ds1: "documents ds1 = ds'"
    by (auto simp: tag_def with_resource_def)
  from docs_loop_twice [OF rest] same
  have "fst (docs_loop svc tf False uniprot (documents ds1)) = (r1, twice_docs (documents ds) (documents ds1))"
    by (simp add: ds1 r)
  then have "fst (tag svc tf ds1 False uniprot) =
           (r1, ds1\<lparr>documents := twice_docs (documents ds) (documents ds1)\<rparr>)"
    by (auto simp: tag_def with_resource_def split: prod.splits)
  with single_run_appends [OF run] show ?thesis by simp
qed

theorem C7_second_run_doubles_witness:
  "same_lookups svc0 (documents ds0) (documents ds0_tagged)
   \<and> fst (tag svc0 tf0 ds0 False True) = (None, ds0_tagged)
   \<and> fst (tag svc0 tf0 ds0_tagged False True) = (None, ds0_twice)
   \<and> predicted_annotations part1 = []
   \<and> produced part1 (part1\<lparr>predicted_annotations := [ann0]\<rparr>) = [ann0]"
proof -
  have same: "same_lookups svc0 (documents ds0) (documents ds0_tagged)"
    by (simp add: same_lookups_def ds0_def ds0_tagged_def svc0_def)
  have tw: "ds0_tagged\<lparr>documents := twice_docs (documents ds0) (documents ds0_tagged)\<rparr> = ds0_twice"
    by (simp add: ds0_def ds0_tagged_def ds0_twice_def twice_docs_def doc0_def doc0_tagged_def
        twice_parts_def twice_part_def produced_def part0_def part1_def)
  show ?thesis
    using C7_second_run_doubles [OF tag_ds0 same] same
    by (simp add: tw tag_ds0 produced_def part1_def)
qed

subsection \<open>C8\<close>

text \<open>
  C8: every entity that \<open>tag\<close> stores in a part has a text that occurs in the text of that
  part; and a mention whose text does not occur in the part's text leaves no trace in that
  part, whatever its offset: the loop gives the same part with and without it.
\<close>

theorem C8_text_filter:
  "(tag svc tf ds annotated uniprot = ((r, ds'), tr) \<longrightarrow>
      docs_rel
        (\<lambda>p p'. p' = store_all annotated (added p p') p
                 \<and> (\<forall>e \<in> set (added p p'). str_in (entity_text e) (part_text p)))
        (documents ds) (documents ds'))
   \<and> (\<not> str_in (gene_2 g) (part_text p) \<longrightarrow>
        genes_loop tf gm gom annotated lo hi (gs1 @ g # gs2) p =
        genes_loop tf gm gom annotated lo hi (gs1 @ gs2) p)"
proof (intro conjI impI)
  assume run: "tag svc tf ds annotated uniprot = ((r, ds'), tr)"
  show "docs_rel
        (\<lambda>p p'. p' = store_all annotated (added p p') p
                 \<and> (\<forall>e \<in> set (added p p'). str_in (entity_text e) (part_text p)))
        (documents ds) (documents ds')"
  proof (rule tag_rel [OF _ _ run])
    fix p
    show "p = store_all annotated (added p p) p \<and>
          (\<forall>e \<in> set (added p p). str_in (entity_text e) (part_text p))"
      by (simp add: added_same store_all_Nil)
  next
    fix gm gom genes lo p
    let ?p' = "genes_loop tf gm gom annotated lo (lo + (get_size p + 1)) genes p"
    show "?p' = store_all annotated (added p ?p') p \<and>
          (\<forall>e \<in> set (added p ?p'). str_in (entity_text e) (part_text p))"
      by (auto simp: genes_loop_eq added_store_all make_ann_def passes_def)
  qed
next
  assume "\<not> str_in (gene_2 g) (part_text p)"
  then have "\<not> passes lo hi p g" by (simp add: passes_def)
  then show "genes_loop tf gm gom annotated lo hi (gs1 @ g # gs2) p =
        genes_loop tf gm gom annotated lo hi (gs1 @ gs2) p"
    by (simp add: genes_loop_eq)
qed

theorem C8_text_filter_witness:
  "docs_rel
        (\<lambda>p p'. p' = store_all False (added p p') p
                 \<and> (\<forall>e \<in> set (added p p'). str_in (entity_text e) (part_text p)))
        (documents ds0) (documents ds0_tagged)
   \<and> added part1 (part1\<lparr>predicted_annotations := [ann0]\<rparr>) = [ann0]
   \<and> \<not> str_in (gene_2 g_other) (part_text part0) \<and> 0 \<le> gene_0 g_other \<and> gene_0 g_other < 5
   \<and> genes_loop tf0 [] [] False 0 5 [g_other] part0 = part0"
  using C8_text_filter [where svc = svc0 and tf = tf0 and ds = ds0 and annotated = False
      and uniprot = True and r = None and ds' = ds0_tagged
      and tr = "Enter GNormPlus # doc_events0 doc0 ''d0'' @ [Exit GNormPlus]"
      and g = g_other and p = part0 and gm = "[]" and gom = "[]" and lo = 0 and hi = 5
      and ?gs1.0 = "[]" and ?gs2.0 = "[]"]
    tag_ds0
  by (simp add: g_other_def part0_def added_def part1_def)

subsection \<open>C9\<close>

text \<open>
  C9: every entity that \<open>tag\<close> stores, in any part of any document and in either collection,
  has the confidence 0.5 and the empty string as its normalized text. Each part after the
  run is the part before it with the new entities appended.
\<close>

theorem C9_confidence_and_normalized_text:
  assumes "tag svc tf ds annotated uniprot = ((r, ds'), tr)"
  shows "docs_rel
           (\<lambda>p p'. p' = store_all annotated (added p p') p
                    \<and> (\<forall>e \<in> set (added p p'). confidence e = 0.5 \<and> normalized_text e = ''''))
           (documents ds) (documents ds')"
proof (rule tag_rel [OF _ _ assms])
  fix p
  show "p = store_all annotated (added p p) p \<and>
        (\<forall>e \<in> set (added p p). confidence e = 0.5 \<and> normalized_text e = '''')"
    by (simp add: added_same store_all_Nil)
next
  fix gm gom genes lo p
  let ?p' = "genes_loop tf gm gom annotated lo (lo + (get_size p + 1)) genes p"
  show "?p' = store_all annotated (added p ?p') p \<and>
        (\<forall>e \<in> set (added p ?p'). confidence e = 0.5 \<and> normalized_text e = '''')"
    by (auto simp: genes_loop_eq added_store_all make_ann_def)
qed

theorem C9_confidence_and_normalized_text_witness:
  "tag svc0 tf0 ds0 False True =
     ((None, ds0_tagged), Enter GNormPlus # doc_events0 doc0 ''d0'' @ [Exit GNormPlus])
   \<and> added part1 (part1\<lparr>predicted_annotations := [ann0]\<rparr>) = [ann0]
   \<and> docs_rel
        (\<lambda>p p'. p' = store_all False (added p p') p
                 \<and> (\<forall>e \<in> set (added p p'). confidence e = 0.5 \<and> normalized_text e = ''''))
        (documents ds0) (documents ds0_tagged)"
  using C9_confidence_and_normalized_text [OF tag_ds0] tag_ds0
  by (simp add: added_def part1_def)

subsection \<open>C10\<close>

text \<open>
  C10: the first event of the work on a document is the call that fetches its genes: by the
  text of the document when \<open>'Conclusion'\<close> occurs in \<open>doc.get_text()\<close>, by the document id
  otherwise. No other fetch follows; an exception of the call is the outcome for the document,
  and the genes it returns are those that the loop over the parts stores.
\<close>

theorem C10_retrieval_mode:
  "(let marker = str_in ''Conclusion'' (get_text doc);
        fetched = (if marker then get_genes_for_text svc doc docid
                   else get_genes_for_pmid svc docid);
        fetch_event = (if marker then Call_get_genes_for_text doc docid
                       else Call_get_genes_for_pmid docid);
        run = tag_doc svc tf annotated uniprot docid doc
    in (\<exists>rest. snd run = fetch_event # rest
          \<and> (\<forall>d k. Call_get_genes_for_text d k \<notin> set rest \<and> Call_get_genes_for_pmid k \<notin> set rest))
       \<and> (\<forall>e. fetched = Inl e \<longrightarrow> run = (Inl e, [fetch_event]))
       \<and> (\<forall>genes doc'. fetched = Inr genes \<and> fst run = Inr doc' \<longrightarrow>
            (\<exists>gm gom. doc' = doc\<lparr>parts := parts_loop tf gm gom annotated genes 0 (parts doc)\<rparr>)))"
  by (auto simp: Let_def tag_doc_def fetch_genes_def fetch_genes_mapping_def
      fetch_goterms_mapping_def and_then_def call_def done_with_def with_resource_def
      split: sum.splits prod.splits)

theorem C10_retrieval_mode_witness:
  "str_in ''Conclusion'' (get_text doc0)
   \<and> hd (snd (tag_doc svc0 tf0 False True ''d0'' doc0)) = Call_get_genes_for_text doc0 ''d0''
   \<and> \<not> str_in ''Conclusion'' (get_text doc_a)
   \<and> hd (snd (tag_doc svc0 tf0 False True ''d0'' doc_a)) = Call_get_genes_for_pmid ''d0''"
  using C10_retrieval_mode [of doc0 svc0 "''d0''" tf0 False True]
    C10_retrieval_mode [of doc_a svc0 "''d0''" tf0 False True]
  by (auto simp: Let_def marker_doc0 no_marker_doc_a)

end
